theory Spec2Isabelle
  imports Complex_Main
begin

section \<open>Floating-point values\<close>

text \<open>
  Both scripts compute with Python floats and numpy \<open>float64\<close> arrays. A value is a real
  number or one of the three special values of IEEE 754, which behave as they do in
  Python: every comparison with NaN is false, NaN propagates through arithmetic, and
  \<open>genfromtxt\<close> stores a missing field as NaN. The operations of this section return the
  exact result on finite values; what binary64 arithmetic returns is the rounding
  \<open>fround\<close> of the exact result, defined in the next section. The height loop of the
  bounce script rounds its product, because whether and when the loop ends depends on the
  rounded heights. The formulas of the two scripts are written over the exact operations.
\<close>

datatype pyfloat = Fin real | PInf | NInf | NaN

fun isnan :: "pyfloat \<Rightarrow> bool" where
  "isnan NaN = True"
| "isnan _ = False"

text \<open>\<open>a < b\<close>; \<open>a > b\<close> is \<open>fless b a\<close>.\<close>

fun fless :: "pyfloat \<Rightarrow> pyfloat \<Rightarrow> bool" where
  "fless (Fin a) (Fin b) = (a < b)"
| "fless (Fin a) PInf = True"
| "fless NInf (Fin b) = True"
| "fless NInf PInf = True"
| "fless _ _ = False"

text \<open>\<open>a <= b\<close>; \<open>a >= b\<close> is \<open>fle b a\<close>.\<close>

fun fle :: "pyfloat \<Rightarrow> pyfloat \<Rightarrow> bool" where
  "fle (Fin a) (Fin b) = (a \<le> b)"
| "fle NaN _ = False"
| "fle _ NaN = False"
| "fle NInf _ = True"
| "fle _ PInf = True"
| "fle _ _ = False"

fun fneg :: "pyfloat \<Rightarrow> pyfloat" where
  "fneg (Fin a) = Fin (- a)"
| "fneg PInf = NInf"
| "fneg NInf = PInf"
| "fneg NaN = NaN"

fun fadd :: "pyfloat \<Rightarrow> pyfloat \<Rightarrow> pyfloat" where
  "fadd (Fin a) (Fin b) = Fin (a + b)"
| "fadd NaN _ = NaN"
| "fadd _ NaN = NaN"
| "fadd PInf NInf = NaN"
| "fadd NInf PInf = NaN"
| "fadd PInf _ = PInf"
| "fadd _ PInf = PInf"
| "fadd NInf _ = NInf"
| "fadd _ NInf = NInf"

definition fsub :: "pyfloat \<Rightarrow> pyfloat \<Rightarrow> pyfloat" where
  "fsub a b = fadd a (fneg b)"

fun fabs :: "pyfloat \<Rightarrow> pyfloat" where
  "fabs (Fin a) = Fin \<bar>a\<bar>"
| "fabs PInf = PInf"
| "fabs NInf = PInf"
| "fabs NaN = NaN"

text \<open>The sign of a value: \<open>1\<close>, \<open>-1\<close>, or \<open>0\<close> for zero and for NaN.\<close>

fun fsign :: "pyfloat \<Rightarrow> int" where
  "fsign (Fin a) = (if 0 < a then 1 else if a < 0 then - 1 else 0)"
| "fsign PInf = 1"
| "fsign NInf = - 1"
| "fsign NaN = 0"

text \<open>The infinity of a sign; NaN for the sign \<open>0\<close>, as in \<open>0 * inf\<close> and \<open>0 / 0\<close>.\<close>

definition signed_inf :: "int \<Rightarrow> pyfloat" where
  "signed_inf s = (if 0 < s then PInf else if s < 0 then NInf else NaN)"

fun fmul :: "pyfloat \<Rightarrow> pyfloat \<Rightarrow> pyfloat" where
  "fmul (Fin a) (Fin b) = Fin (a * b)"
| "fmul NaN _ = NaN"
| "fmul _ NaN = NaN"
| "fmul a b = signed_inf (fsign a * fsign b)"

text \<open>
  Division as numpy does it (a warning, no exception). Every divisor of the two scripts
  that can be zero is a square or an integer count, hence the positive zero: the quotient
  of a non-zero value by zero is the infinity of the dividend's sign, and \<open>0 / 0\<close> is NaN.
\<close>

fun fdiv :: "pyfloat \<Rightarrow> pyfloat \<Rightarrow> pyfloat" where
  "fdiv (Fin a) (Fin b) = (if b = 0 then signed_inf (fsign (Fin a)) else Fin (a / b))"
| "fdiv NaN _ = NaN"
| "fdiv _ NaN = NaN"
| "fdiv (Fin a) _ = Fin 0"
| "fdiv PInf (Fin b) = (if b < 0 then NInf else PInf)"
| "fdiv NInf (Fin b) = (if b < 0 then PInf else NInf)"
| "fdiv _ _ = NaN"

text \<open>\<open>np.sqrt\<close>: NaN (with a warning) on a negative argument.\<close>

fun fsqrt :: "pyfloat \<Rightarrow> pyfloat" where
  "fsqrt (Fin a) = (if a < 0 then NaN else Fin (sqrt a))"
| "fsqrt PInf = PInf"
| "fsqrt NInf = NaN"
| "fsqrt NaN = NaN"

text \<open>\<open>x**2\<close>.\<close>

definition fsquare :: "pyfloat \<Rightarrow> pyfloat" where
  "fsquare x = fmul x x"

text \<open>\<open>np.sum\<close> of a one-dimensional array; the sum of the empty array is \<open>0.0\<close>.\<close>

primrec fsum :: "pyfloat list \<Rightarrow> pyfloat" where
  "fsum [] = Fin 0"
| "fsum (x # xs) = fadd x (fsum xs)"

section \<open>Rounding to binary64\<close>

text \<open>
  A Python float is an IEEE 754 binary64 number. \<open>binary64\<close> rounds a real to the nearest
  such number: the spacing of the numbers around \<open>x\<close> is \<open>2 powi (expo x - 52)\<close>, with the
  exponent held at \<open>-1022\<close> in the subnormal range, and a tie goes to the even multiple of
  the spacing. \<open>fround\<close> is the result of an operation whose exact value is given: the
  rounded value, or an infinity when the rounded value is beyond the largest float.
\<close>

definition rne :: "real \<Rightarrow> int" where
  "rne x =
     (let n = \<lfloor>x\<rfloor>; r = x - real_of_int n
      in if r < 1 / 2 then n else if 1 / 2 < r then n + 1 else if even n then n else n + 1)"

definition expo :: "real \<Rightarrow> int" where
  "expo x = (if \<bar>x\<bar> < 2 powi (- 1022) then - 1022 else \<lfloor>log 2 \<bar>x\<bar>\<rfloor>)"

definition binary64 :: "real \<Rightarrow> real" where
  "binary64 x = 2 powi (expo x - 52) * real_of_int (rne (x / 2 powi (expo x - 52)))"

text \<open>The least magnitude that is beyond every float.\<close>

definition float_limit :: real where
  "float_limit = 2 ^ 1024"

definition fround :: "pyfloat \<Rightarrow> pyfloat" where
  "fround v =
     (case v of
        Fin x \<Rightarrow>
          (let r = binary64 x
           in if float_limit \<le> r then PInf else if r \<le> - float_limit then NInf else Fin r)
      | _ \<Rightarrow> v)"

text \<open>The reals that are floats: \<open>binary64\<close> leaves them as they are.\<close>

definition representable :: "real \<Rightarrow> bool" where
  "representable x \<longleftrightarrow> binary64 x = x \<and> \<bar>x\<bar> < float_limit"

section \<open>The bouncy-ball script\<close>

definition GRAVITATIONAL_ACCELERATION_CONSTANT :: pyfloat where
  "GRAVITATIONAL_ACCELERATION_CONSTANT = Fin (9807 / 1000)"

text \<open>
  The loop of \<open>calculate_height_values\<close>: while the height is above the minimum, multiply
  it by the coefficient and append it to the list. The loop may run forever, so the model
  is a partial function and \<open>None\<close> stands for a call that never returns.
\<close>

partial_function (option) height_loop ::
  "pyfloat \<Rightarrow> pyfloat \<Rightarrow> pyfloat \<Rightarrow> pyfloat list \<Rightarrow> pyfloat list option" where
  "height_loop new_height minimum_height energy_loss_coefficient height_list =
     (if fless minimum_height new_height
      then height_loop (fround (fmul new_height energy_loss_coefficient)) minimum_height
             energy_loss_coefficient
             (height_list @ [fround (fmul new_height energy_loss_coefficient)])
      else Some height_list)"

definition calculate_height_values :: "pyfloat \<Rightarrow> pyfloat \<Rightarrow> pyfloat \<Rightarrow> pyfloat list option" where
  "calculate_height_values initial_height minimum_height energy_loss_coefficient =
     height_loop initial_height minimum_height energy_loss_coefficient []"

text \<open>
  The slice \<open>xs[:k]\<close> of Python: a negative bound counts from the end, so \<open>xs[:-1]\<close> of
  the empty list is the empty list.
\<close>

definition slice_to :: "'a list \<Rightarrow> int \<Rightarrow> 'a list" where
  "slice_to xs k = (if k < 0 then take (nat (int (length xs) + k)) xs else take (nat k) xs)"

definition calculate_time_values :: "pyfloat \<Rightarrow> pyfloat list \<Rightarrow> pyfloat" where
  "calculate_time_values initial_height height_list =
     (let zeroth_bounce_time =
            fsqrt (fdiv (fmul (Fin 2) initial_height) GRAVITATIONAL_ACCELERATION_CONSTANT);
          bounce_time_list =
            map (\<lambda>h. fsqrt (fdiv (fmul (Fin 8) h) GRAVITATIONAL_ACCELERATION_CONSTANT))
              (slice_to height_list (int (length height_list) - 1));
          total_time = fadd (fsum bounce_time_list) zeroth_bounce_time
      in total_time)"

text \<open>
  What the user types at a prompt, as \<open>float\<close> sees it: \<open>NotNumeric\<close> when \<open>float\<close>
  raises \<open>ValueError\<close>, otherwise the value. Python's \<open>float\<close> reads \<open>nan\<close> and
  \<open>inf\<close> too, so the value ranges over all of \<open>pyfloat\<close>.
\<close>

datatype entry = NotNumeric | Numeric pyfloat

datatype py_error = EOFError | ValueError | IndexError

text \<open>
  The three validation loops of \<open>main\<close>. Each reads entries until one passes its checks
  and returns it with the entries not yet read; \<open>input\<close> raises \<open>EOFError\<close> when the
  entries run out.
\<close>

fun initial_height_loop :: "entry list \<Rightarrow> py_error + pyfloat \<times> entry list" where
  "initial_height_loop [] = Inl EOFError"
| "initial_height_loop (NotNumeric # entries) = initial_height_loop entries"
| "initial_height_loop (Numeric initial_height # entries) =
     (if fle initial_height (Fin 0) then initial_height_loop entries
      else Inr (initial_height, entries))"

fun minimum_height_loop :: "pyfloat \<Rightarrow> entry list \<Rightarrow> py_error + pyfloat \<times> entry list" where
  "minimum_height_loop initial_height [] = Inl EOFError"
| "minimum_height_loop initial_height (NotNumeric # entries) =
     minimum_height_loop initial_height entries"
| "minimum_height_loop initial_height (Numeric minimum_height # entries) =
     (if fless minimum_height (Fin 0) then minimum_height_loop initial_height entries
      else if fle initial_height minimum_height
        then minimum_height_loop initial_height entries
      else Inr (minimum_height, entries))"

fun energy_loss_coefficient_loop :: "entry list \<Rightarrow> py_error + pyfloat \<times> entry list" where
  "energy_loss_coefficient_loop [] = Inl EOFError"
| "energy_loss_coefficient_loop (NotNumeric # entries) = energy_loss_coefficient_loop entries"
| "energy_loss_coefficient_loop (Numeric energy_loss_coefficient # entries) =
     (if fle energy_loss_coefficient (Fin 0) \<or> fle (Fin 1) energy_loss_coefficient
      then energy_loss_coefficient_loop entries
      else Inr (energy_loss_coefficient, entries))"

text \<open>
  \<open>main\<close> of the bounce script: the three loops, then the heights and the total time.
  The result is \<open>None\<close> when the height loop never returns.
\<close>

definition main :: "entry list \<Rightarrow> (py_error + pyfloat list \<times> pyfloat) option" where
  "main entries =
     (case initial_height_loop entries of
        Inl e \<Rightarrow> Some (Inl e)
      | Inr (initial_height, entries1) \<Rightarrow>
     (case minimum_height_loop initial_height entries1 of
        Inl e \<Rightarrow> Some (Inl e)
      | Inr (minimum_height, entries2) \<Rightarrow>
     (case energy_loss_coefficient_loop entries2 of
        Inl e \<Rightarrow> Some (Inl e)
      | Inr (energy_loss_coefficient, entries3) \<Rightarrow>
     (case calculate_height_values initial_height minimum_height energy_loss_coefficient of
        None \<Rightarrow> None
      | Some height_list \<Rightarrow>
          Some (Inr (height_list, calculate_time_values initial_height height_list))))))"

text \<open>Each element of the list is strictly smaller than its predecessor.\<close>

fun strictly_decreasing :: "pyfloat list \<Rightarrow> bool" where
  "strictly_decreasing (x # y # zs) = (fless y x \<and> strictly_decreasing (y # zs))"
| "strictly_decreasing _ = True"

section \<open>The nuclear-decay script\<close>

text \<open>
  A one-dimensional array is a list of values, a two-dimensional array the list of its
  rows. A binary operation of numpy on two one-dimensional arrays works element by
  element; an array of length one is broadcast along the other, and any other pair of
  different lengths raises \<open>ValueError\<close>.
\<close>

definition elementwise ::
  "(pyfloat \<Rightarrow> pyfloat \<Rightarrow> 'c) \<Rightarrow> pyfloat list \<Rightarrow> pyfloat list \<Rightarrow> py_error + 'c list" where
  "elementwise f xs ys =
     (if length xs = length ys then Inr (map2 f xs ys)
      else if length xs = 1 then Inr (map (f (hd xs)) ys)
      else if length ys = 1 then Inr (map (\<lambda>x. f x (hd ys)) xs)
      else Inl ValueError)"

text \<open>\<open>xs[i]\<close> for an index that is not negative.\<close>

definition getitem :: "'a list \<Rightarrow> nat \<Rightarrow> py_error + 'a" where
  "getitem xs i = (if i < length xs then Inr (xs ! i) else Inl IndexError)"

text \<open>\<open>xs[indexes]\<close> for the index array that \<open>np.where\<close> returns.\<close>

definition take_indexes :: "'a list \<Rightarrow> nat list \<Rightarrow> py_error + 'a list" where
  "take_indexes xs indexes =
     (if list_all (\<lambda>i. i < length xs) indexes then Inr (map (nth xs) indexes)
      else Inl IndexError)"

definition data_is_not_null :: "pyfloat \<Rightarrow> bool" where
  "data_is_not_null datapoints = (if isnan datapoints then False else True)"

text \<open>
  The condition of \<open>remove_null_values\<close> on one row; \<open>and\<close> reads \<open>row[1]\<close> only when
  \<open>row[0]\<close> is not null, and \<open>row[2]\<close> only when \<open>row[1]\<close> is not null either.
\<close>

definition row_is_not_null :: "pyfloat list \<Rightarrow> py_error + bool" where
  "row_is_not_null row =
     (case getitem row 0 of
        Inl e \<Rightarrow> Inl e
      | Inr time \<Rightarrow>
          if \<not> data_is_not_null time then Inr False
          else (case getitem row 1 of
                  Inl e \<Rightarrow> Inl e
                | Inr activity \<Rightarrow>
                    if \<not> data_is_not_null activity then Inr False
                    else (case getitem row 2 of
                            Inl e \<Rightarrow> Inl e
                          | Inr activity_uncertainty \<Rightarrow>
                              Inr (data_is_not_null activity_uncertainty))))"

text \<open>
  The loop of \<open>remove_null_values\<close> over the rows of \<open>file_ab\<close>: a row that passes the
  condition is converted (hours to seconds, tera-becquerel to becquerel) and stacked under
  the rows collected so far. The source writes the converted values into the row of
  \<open>file_ab\<close> as well; the model returns the function's result only.
\<close>

fun null_filter_loop :: "pyfloat list list \<Rightarrow> pyfloat list list \<Rightarrow> py_error + pyfloat list list" where
  "null_filter_loop [] null_filtered_data = Inr null_filtered_data"
| "null_filter_loop (row # rows) null_filtered_data =
     (case row_is_not_null row of
        Inl e \<Rightarrow> Inl e
      | Inr False \<Rightarrow> null_filter_loop rows null_filtered_data
      | Inr True \<Rightarrow>
          (let temp = [fmul (row ! 0) (Fin 3600), fmul (row ! 1) (Fin (10 ^ 12)),
                       fmul (row ! 2) (Fin (10 ^ 12))]
           in null_filter_loop rows (null_filtered_data @ [temp])))"

definition remove_null_values :: "pyfloat list list \<Rightarrow> py_error + pyfloat list list" where
  "remove_null_values file_ab = null_filter_loop file_ab []"

definition remove_outliers ::
  "pyfloat list \<Rightarrow> pyfloat list \<Rightarrow> pyfloat list \<Rightarrow> pyfloat list \<Rightarrow> py_error + pyfloat list list" where
  "remove_outliers trial_activity time activity activity_uncertainty =
     (case elementwise fsub trial_activity activity of
        Inl e \<Rightarrow> Inl e
      | Inr difference \<Rightarrow>
     (case elementwise fless (map fabs difference) (map (fmul (Fin 3)) activity_uncertainty) of
        Inl e \<Rightarrow> Inl e
      | Inr condition \<Rightarrow>
     (let filtered_indexes = filter (\<lambda>i. condition ! i) [0..<length condition] in
     (case take_indexes time filtered_indexes of
        Inl e \<Rightarrow> Inl e
      | Inr outlier_filtered_time \<Rightarrow>
     (case take_indexes activity filtered_indexes of
        Inl e \<Rightarrow> Inl e
      | Inr outlier_filtered_activity \<Rightarrow>
     (case take_indexes activity_uncertainty filtered_indexes of
        Inl e \<Rightarrow> Inl e
      | Inr outlier_filtered_activity_uncertainty \<Rightarrow>
          Inr (map (\<lambda>(t, a, u). [t, a, u])
                 (zip outlier_filtered_time
                    (zip outlier_filtered_activity outlier_filtered_activity_uncertainty)))))))))"

definition chi_squared_value ::
  "pyfloat list \<Rightarrow> pyfloat list \<Rightarrow> pyfloat list \<Rightarrow> pyfloat list \<Rightarrow> pyfloat list list \<Rightarrow>
   py_error + pyfloat" where
  "chi_squared_value independent_variable dependent_variable error
     predicted_dependent_variable dataset =
     (case elementwise fsub dependent_variable predicted_dependent_variable of
        Inl e \<Rightarrow> Inl e
      | Inr residual \<Rightarrow>
     (case elementwise fdiv (map fsquare residual) (map fsquare error) of
        Inl e \<Rightarrow> Inl e
      | Inr terms \<Rightarrow>
     (let chi_squared = fsum terms;
          row_numbers = int (length independent_variable)
      in
     (case getitem dataset 0 of
        Inl e \<Rightarrow> Inl e
      | Inr first_row \<Rightarrow>
     (let column_numbers = int (length first_row) - 1;
          degrees_of_freedom = row_numbers - column_numbers;
          reduced_chi_squared = fdiv chi_squared (Fin (real_of_int degrees_of_freedom))
      in Inr reduced_chi_squared)))))"

section \<open>Properties of the rounding\<close>

lemma rne_of_int: "rne (real_of_int k) = k"
  by (simp add: rne_def)

lemma rne_bounds: "real_of_int (rne x) \<le> x + 1 / 2" "x - 1 / 2 \<le> real_of_int (rne x)"
  unfolding rne_def Let_def by (auto; linarith)+

lemma rne_ge_int: "real_of_int k \<le> x \<Longrightarrow> k \<le> rne x"
proof -
  assume "real_of_int k \<le> x"
  then have "k \<le> \<lfloor>x\<rfloor>" by (simp add: le_floor_iff)
  moreover have "\<lfloor>x\<rfloor> \<le> rne x" unfolding rne_def Let_def by auto
  ultimately show ?thesis by simp
qed

lemma rne_le_int: "x \<le> real_of_int k \<Longrightarrow> rne x \<le> k"
proof -
  assume a: "x \<le> real_of_int k"
  show ?thesis
  proof (cases "x = real_of_int k")
    case True then show ?thesis by (simp add: rne_of_int)
  next
    case False
    with a have "x < real_of_int k" by simp
    then have "\<lfloor>x\<rfloor> < k" by (simp add: floor_less_iff)
    moreover have "rne x \<le> \<lfloor>x\<rfloor> + 1" unfolding rne_def Let_def by auto
    ultimately show ?thesis by simp
  qed
qed

lemma rne_mono: assumes "x \<le> y" shows "rne x \<le> rne y"
proof (cases "\<lfloor>x\<rfloor> = \<lfloor>y\<rfloor>")
  case True
  with assms have "x - real_of_int \<lfloor>x\<rfloor> \<le> y - real_of_int \<lfloor>y\<rfloor>" by simp
  with True show ?thesis unfolding rne_def Let_def by auto
next
  case False
  with assms have "\<lfloor>x\<rfloor> < \<lfloor>y\<rfloor>" by (simp add: floor_mono order.strict_iff_order)
  then have "\<lfloor>x\<rfloor> + 1 \<le> \<lfloor>y\<rfloor>" by simp
  moreover have "rne x \<le> \<lfloor>x\<rfloor> + 1" "\<lfloor>y\<rfloor> \<le> rne y" unfolding rne_def Let_def by auto
  ultimately show ?thesis by linarith
qed

lemma expo_subnormal: "\<bar>x\<bar> < 2 powi (- 1022) \<Longrightarrow> expo x = - 1022"
  by (simp add: expo_def)

lemma expo_normal:
  assumes "2 powi (- 1022) \<le> \<bar>x\<bar>"
  shows "2 powi expo x \<le> \<bar>x\<bar>" "\<bar>x\<bar> < 2 powi (expo x + 1)" "- 1022 \<le> expo x"
proof -
  have pos: "0 < \<bar>x\<bar>" using assms by (smt (verit) zero_less_power_int)
  have e: "expo x = \<lfloor>log 2 \<bar>x\<bar>\<rfloor>" using assms by (simp add: expo_def)
  from floor_log_eq_powr_iff[OF pos, of 2 "\<lfloor>log 2 \<bar>x\<bar>\<rfloor>"]
  have "2 powr real_of_int (expo x) \<le> \<bar>x\<bar>" "\<bar>x\<bar> < 2 powr (real_of_int (expo x) + 1)"
    unfolding e by simp_all
  then show "2 powi expo x \<le> \<bar>x\<bar>" "\<bar>x\<bar> < 2 powi (expo x + 1)"
    using powr_real_of_int'[of 2 "expo x"] powr_real_of_int'[of 2 "expo x + 1"] by simp_all
  then have "(2::real) powi (- 1022) < 2 powi (expo x + 1)" using assms by linarith
  then have "- 1022 < expo x + 1"
    by (smt (verit) power_int_increasing)
  then show "- 1022 \<le> expo x" by simp
qed

lemma expo_eqI:
  assumes "2 powi e \<le> \<bar>x\<bar>" "\<bar>x\<bar> < 2 powi (e + 1)" "- 1022 \<le> e"
  shows "expo x = e"
proof -
  have pos: "0 < \<bar>x\<bar>" using assms(1) by (smt (verit) zero_less_power_int)
  have "(2::real) powi (- 1022) \<le> 2 powi e" using assms(3) by (intro power_int_increasing) simp_all
  with assms(1) have n: "\<not> \<bar>x\<bar> < 2 powi (- 1022)" by linarith
  have "2 powr real_of_int e \<le> \<bar>x\<bar>" "\<bar>x\<bar> < 2 powr (real_of_int e + 1)"
    using assms(1,2) powr_real_of_int'[of 2 e] powr_real_of_int'[of 2 "e + 1"] by simp_all
  with floor_log_eq_powr_iff[OF pos, of 2 e] have "\<lfloor>log 2 \<bar>x\<bar>\<rfloor> = e" by simp
  with n show ?thesis by (simp add: expo_def)
qed

lemma binary64_0: "binary64 0 = 0"
  by (simp add: binary64_def rne_def)

lemma quantum_pos: "0 < (2::real) powi e"
  by simp

lemma pow2_split52: "(2::real) powi e = 2 powi (e - 52) * 2 ^ 52"
proof -
  have "(2::real) powi e = 2 powi ((e - 52) + 52)" by simp
  also have "\<dots> = 2 powi (e - 52) * 2 powi 52" by (rule power_int_add) simp
  finally show ?thesis by simp
qed

lemma pow2_split53: "(2::real) powi (e + 1) = 2 powi (e - 52) * 2 ^ 53"
proof -
  have "e + 1 = (e - 52) + 53" by simp
  then have "(2::real) powi (e + 1) = 2 powi ((e - 52) + 53)" by (simp only:)
  also have "\<dots> = 2 powi (e - 52) * 2 powi 53" by (rule power_int_add) simp
  finally show ?thesis by simp
qed

lemma binary64_grid:
  "binary64 x = 2 powi (expo x - 52) * real_of_int (rne (x / 2 powi (expo x - 52)))"
  by (simp add: binary64_def)

lemma scaled_ge:
  fixes q x :: real
  assumes "0 < q" "q * real_of_int k \<le> x"
  shows "q * real_of_int k \<le> q * real_of_int (rne (x / q))"
proof -
  from assms have "real_of_int k \<le> x / q" by (simp add: field_simps)
  then have "k \<le> rne (x / q)" by (rule rne_ge_int)
  then have "real_of_int k \<le> real_of_int (rne (x / q))" by simp
  with assms(1) show ?thesis by simp
qed

lemma scaled_le:
  fixes q x :: real
  assumes "0 < q" "x \<le> q * real_of_int k"
  shows "q * real_of_int (rne (x / q)) \<le> q * real_of_int k"
proof -
  from assms have "x / q \<le> real_of_int k" by (simp add: field_simps)
  then have "rne (x / q) \<le> k" by (rule rne_le_int)
  then have "real_of_int (rne (x / q)) \<le> real_of_int k" by simp
  with assms(1) show ?thesis by simp
qed

lemma binary64_normal_bounds:
  assumes "2 powi (- 1022) \<le> x"
  shows "2 powi expo x \<le> binary64 x" "binary64 x \<le> 2 powi (expo x + 1)"
proof -
  have x: "\<bar>x\<bar> = x" using assms by (smt (verit) zero_less_power_int)
  from expo_normal[of x] assms x
  have lo: "2 powi expo x \<le> x" and hi: "x < 2 powi (expo x + 1)" by simp_all
  let ?q = "(2::real) powi (expo x - 52)"
  have q: "0 < ?q" by simp
  have "?q * real_of_int (2 ^ 52) \<le> x" using lo pow2_split52[of "expo x"] by simp
  from scaled_ge[OF q this] show "2 powi expo x \<le> binary64 x"
    using pow2_split52[of "expo x"] by (simp add: binary64_def)
  have "x \<le> ?q * real_of_int (2 ^ 53)" using hi pow2_split53[of "expo x"] by simp
  from scaled_le[OF q this] show "binary64 x \<le> 2 powi (expo x + 1)"
    using pow2_split53[of "expo x"] by (simp add: binary64_def)
qed

lemma binary64_subnormal_bounds:
  assumes "0 \<le> x" "x < 2 powi (- 1022)"
  shows "0 \<le> binary64 x" "binary64 x \<le> 2 powi (- 1022)"
proof -
  have e: "expo x = - 1022" using assms by (simp add: expo_def)
  let ?q = "(2::real) powi (- 1022 - 52)"
  have q: "0 < ?q" by simp
  have "?q * real_of_int 0 \<le> x" using assms by simp
  from scaled_ge[OF q this] show "0 \<le> binary64 x" by (simp add: binary64_def e)
  have "x \<le> ?q * real_of_int (2 ^ 52)" using assms(2) pow2_split52[of "- 1022"] by simp
  from scaled_le[OF q this] show "binary64 x \<le> 2 powi (- 1022)"
    using pow2_split52[of "- 1022"] by (simp add: binary64_def e)
qed

lemma binary64_nonneg: "0 \<le> x \<Longrightarrow> 0 \<le> binary64 x"
proof (cases "x < 2 powi (- 1022)")
  case True
  assume "0 \<le> x"
  then show ?thesis using True by (rule binary64_subnormal_bounds)
next
  case False
  then have n: "2 powi (- 1022) \<le> x" by simp
  have "(0::real) \<le> 2 powi expo x" by simp
  also have "\<dots> \<le> binary64 x" using n by (rule binary64_normal_bounds)
  finally show ?thesis .
qed

lemma binary64_mono:
  assumes "0 \<le> x" "x \<le> y"
  shows "binary64 x \<le> binary64 y"
proof -
  consider (sub) "y < 2 powi (- 1022)"
    | (mixed) "x < 2 powi (- 1022)" "2 powi (- 1022) \<le> y"
    | (normal) "2 powi (- 1022) \<le> x" "2 powi (- 1022) \<le> y"
    using assms by linarith
  then show ?thesis
  proof cases
    case sub
    with assms have ex: "expo x = - 1022" and ey: "expo y = - 1022" by (simp_all add: expo_def)
    have "x / 2 powi (- 1022 - 52) \<le> y / 2 powi (- 1022 - 52)"
      using assms(2) by (simp add: divide_right_mono)
    then have "rne (x / 2 powi (- 1022 - 52)) \<le> rne (y / 2 powi (- 1022 - 52))"
      by (rule rne_mono)
    then show ?thesis unfolding binary64_def ex ey by simp
  next
    case mixed
    have "binary64 x \<le> 2 powi (- 1022)"
      using assms(1) mixed(1) by (rule binary64_subnormal_bounds)
    also have "(2::real) powi (- 1022) \<le> 2 powi expo y"
    proof -
      have "\<bar>y\<bar> = y" using assms by simp
      with expo_normal(3)[of y] mixed(2) have "- 1022 \<le> expo y" by simp
      then show ?thesis by (intro power_int_increasing) simp_all
    qed
    also have "\<dots> \<le> binary64 y" using mixed(2) by (rule binary64_normal_bounds)
    finally show ?thesis .
  next
    case normal
    have ax: "\<bar>x\<bar> = x" and ay: "\<bar>y\<bar> = y" using assms by simp_all
    from expo_normal[of x] normal(1) ax have lox: "2 powi expo x \<le> x" by simp
    from expo_normal[of y] normal(2) ay have hiy: "y < 2 powi (expo y + 1)" by simp
    from lox assms(2) hiy have "(2::real) powi expo x < 2 powi (expo y + 1)" by linarith
    then have "expo x < expo y + 1" by (smt (verit) power_int_increasing)
    then have le: "expo x \<le> expo y" by simp
    show ?thesis
    proof (cases "expo x = expo y")
      case True
      have "x / 2 powi (expo y - 52) \<le> y / 2 powi (expo y - 52)"
        using assms(2) by (simp add: divide_right_mono)
      then have "rne (x / 2 powi (expo y - 52)) \<le> rne (y / 2 powi (expo y - 52))"
        by (rule rne_mono)
      then show ?thesis unfolding binary64_def True by simp
    next
      case False
      with le have "expo x + 1 \<le> expo y" by simp
      have "binary64 x \<le> 2 powi (expo x + 1)" using normal(1) by (rule binary64_normal_bounds)
      also have "(2::real) powi (expo x + 1) \<le> 2 powi expo y"
        using \<open>expo x + 1 \<le> expo y\<close> by (intro power_int_increasing) simp_all
      also have "\<dots> \<le> binary64 y" using normal(2) by (rule binary64_normal_bounds)
      finally show ?thesis .
    qed
  qed
qed

lemma binary64_exact_subnormal:
  assumes "0 \<le> k" "k \<le> 2 ^ 52"
  shows "binary64 (2 powi (- 1074) * real_of_int k) = 2 powi (- 1074) * real_of_int k"
proof -
  let ?q = "(2::real) powi (- 1074)"
  let ?r = "?q * real_of_int k"
  have split: "(2::real) powi (- 1022) = ?q * 2 ^ 52" using pow2_split52[of "- 1022"] by simp
  have r0: "0 \<le> ?r" using assms(1) by simp
  have e: "expo ?r = - 1022"
  proof (cases "k = 2 ^ 52")
    case True
    then have r: "?r = 2 powi (- 1022)" using split by simp
    have "(2::real) powi (- 1022) < 2 powi (- 1022 + 1)"
      by (intro power_int_strict_increasing) simp_all
    then show ?thesis unfolding r by (intro expo_eqI) simp_all
  next
    case False
    with assms(2) have "k < 2 ^ 52" by simp
    then have "real_of_int k < 2 ^ 52" by (metis of_int_less_iff of_int_numeral of_int_power)
    then have "?r < ?q * 2 ^ 52" by simp
    with r0 show ?thesis unfolding split[symmetric] by (simp add: expo_def)
  qed
  show ?thesis unfolding binary64_def e by (simp add: rne_of_int)
qed

lemma binary64_exact_normal:
  assumes "- 1022 \<le> e" "2 ^ 52 \<le> k" "k \<le> 2 ^ 53"
  shows "binary64 (2 powi (e - 52) * real_of_int k) = 2 powi (e - 52) * real_of_int k"
proof -
  let ?q = "(2::real) powi (e - 52)"
  let ?r = "?q * real_of_int k"
  have k52: "(2::real) ^ 52 \<le> real_of_int k"
    using assms(2) by (metis of_int_le_iff of_int_numeral of_int_power)
  have lo: "2 powi e \<le> ?r" unfolding pow2_split52[of e] using k52 by simp
  have r0: "\<bar>?r\<bar> = ?r" using k52 by simp
  show ?thesis
  proof (cases "k = 2 ^ 53")
    case True
    then have r: "?r = 2 powi (e + 1)" using pow2_split53[of e] by simp
    have "(2::real) powi (e + 1) < 2 powi (e + 1 + 1)"
      by (intro power_int_strict_increasing) simp_all
    then have ex: "expo (2 powi (e + 1)) = e + 1"
      using assms(1) by (intro expo_eqI) simp_all
    have ratio: "(2::real) powi (e + 1) / 2 powi (e + 1 - 52) = real_of_int (2 ^ 52)"
      using pow2_split52[of "e + 1"] by simp
    have "binary64 (2 powi (e + 1)) = 2 powi (e + 1 - 52) * real_of_int (2 ^ 52)"
      unfolding binary64_def ex ratio rne_of_int ..
    also have "\<dots> = 2 powi (e + 1)" using pow2_split52[of "e + 1"] by simp
    finally show ?thesis unfolding r .
  next
    case False
    with assms(3) have "k < 2 ^ 53" by simp
    then have "real_of_int k < 2 ^ 53" by (metis of_int_less_iff of_int_numeral of_int_power)
    then have hi: "?r < 2 powi (e + 1)" unfolding pow2_split53[of e] by simp
    have ex: "expo ?r = e" using lo hi assms(1) r0 by (intro expo_eqI) simp_all
    show ?thesis unfolding binary64_def ex by (simp add: rne_of_int)
  qed
qed

lemma binary64_idem:
  assumes "0 \<le> x"
  shows "binary64 (binary64 x) = binary64 x"
proof (cases "x < 2 powi (- 1022)")
  case True
  then have e: "expo x = - 1022" using assms by (simp add: expo_def)
  let ?k = "rne (x / 2 powi (- 1074))"
  have b: "binary64 x = 2 powi (- 1074) * real_of_int ?k" by (simp add: binary64_def e)
  have "real_of_int 0 \<le> x / 2 powi (- 1074)" using assms by simp
  then have k0: "0 \<le> ?k" by (rule rne_ge_int)
  have "x \<le> 2 powi (- 1074) * 2 ^ 52" using True pow2_split52[of "- 1022"] by simp
  then have "x / 2 powi (- 1074) \<le> real_of_int (2 ^ 52)" by (simp add: field_simps)
  then have k1: "?k \<le> 2 ^ 52" by (rule rne_le_int)
  show ?thesis unfolding b using k0 k1 by (rule binary64_exact_subnormal)
next
  case False
  then have n: "2 powi (- 1022) \<le> x" by simp
  have ax: "\<bar>x\<bar> = x" using assms by simp
  from expo_normal[of x] n ax
  have lo: "2 powi expo x \<le> x" and hi: "x < 2 powi (expo x + 1)" and e: "- 1022 \<le> expo x"
    by simp_all
  let ?q = "(2::real) powi (expo x - 52)"
  let ?k = "rne (x / ?q)"
  have b: "binary64 x = ?q * real_of_int ?k" by (simp add: binary64_def)
  have "real_of_int (2 ^ 52) \<le> x / ?q" using lo pow2_split52[of "expo x"] by (simp add: field_simps)
  then have k0: "2 ^ 52 \<le> ?k" by (rule rne_ge_int)
  have "x / ?q \<le> real_of_int (2 ^ 53)" using hi pow2_split53[of "expo x"] by (simp add: field_simps)
  then have k1: "?k \<le> 2 ^ 53" by (rule rne_le_int)
  show ?thesis unfolding b using e k0 k1 by (rule binary64_exact_normal)
qed

lemma binary64_pow2: "- 1022 \<le> e \<Longrightarrow> binary64 (2 powi e) = 2 powi e"
  using binary64_exact_normal[of e "2 ^ 52"] pow2_split52[of e] by simp

lemma binary64_relative_error:
  assumes "2 powi (- 1022) \<le> x"
  shows "binary64 x \<le> x * (1 + 1 / 2 ^ 53)"
proof -
  have ax: "\<bar>x\<bar> = x" using assms by (smt (verit) zero_less_power_int)
  from expo_normal[of x] assms ax have lo: "2 powi expo x \<le> x" by simp
  let ?q = "(2::real) powi (expo x - 52)"
  have q: "0 < ?q" by simp
  have "real_of_int (rne (x / ?q)) \<le> x / ?q + 1 / 2" by (rule rne_bounds)
  then have "?q * real_of_int (rne (x / ?q)) \<le> ?q * (x / ?q + 1 / 2)"
    using q by (simp only: mult_le_cancel_left_pos)
  also have "\<dots> = x + ?q / 2" using q by (simp add: field_simps)
  also have "?q / 2 \<le> x / 2 ^ 53"
  proof -
    have "?q * 2 ^ 52 \<le> x" using lo pow2_split52[of "expo x"] by simp
    then show ?thesis by (simp add: field_simps)
  qed
  finally show ?thesis by (simp add: binary64_def field_simps)
qed

lemma pow2_neg: "(2::real) powi (- int n) = 1 / 2 ^ n"
  by (simp add: power_int_minus_divide)

lemma binary64_subnormal:
  assumes "\<bar>x\<bar> < 1 / 2 ^ 1022"
  shows "binary64 x = real_of_int (rne (x * 2 ^ 1074)) / 2 ^ 1074"
proof -
  have a: "(2::real) powi (- 1022) = 1 / 2 ^ 1022" using pow2_neg[of 1022] by simp
  have b: "(2::real) powi (- 1074) = 1 / 2 ^ 1074" using pow2_neg[of 1074] by simp
  have e: "expo x = - 1022" using assms unfolding expo_def a by simp
  have "binary64 x = 2 powi (- 1074) * real_of_int (rne (x / 2 powi (- 1074)))"
    unfolding binary64_def e by simp
  then show ?thesis unfolding b by simp
qed

lemma binary64_half: "binary64 (1 / 2) = 1 / 2"
  using binary64_pow2[of "- 1"] pow2_neg[of 1] by simp

lemma binary64_quarter: "binary64 (1 / 4) = 1 / 4"
  using binary64_pow2[of "- 2"] pow2_neg[of 2] by simp

lemma binary64_one: "binary64 1 = 1"
  using binary64_pow2[of 0] by simp

lemma binary64_smallest_normal: "binary64 (1 / 2 ^ 1022) = 1 / 2 ^ 1022"
  using binary64_pow2[of "- 1022"] pow2_neg[of 1022] by simp


lemma binary64_three_quarters_smallest: "binary64 (3 / 4 * (1 / 2 ^ 1074)) = 1 / 2 ^ 1074"
  by (subst binary64_subnormal) (simp_all add: rne_def)

section \<open>Properties of the bouncy-ball script\<close>

lemma representable_step:
  assumes "representable h" "0 \<le> h" "0 \<le> c" "c \<le> 1"
  shows "fround (fmul (Fin h) (Fin c)) = Fin (binary64 (h * c))"
    and "binary64 (h * c) \<le> h" and "0 \<le> binary64 (h * c)" and "representable (binary64 (h * c))"
proof -
  from assms(1) have fx: "binary64 h = h" and bound: "h < float_limit"
    by (auto simp add: representable_def)
  have p0: "0 \<le> h * c" using assms(2,3) by simp
  have p1: "h * c \<le> h" using assms(2,4) by (simp add: mult_left_le)
  from binary64_mono[OF p0 p1] show le: "binary64 (h * c) \<le> h" by (simp add: fx)
  from binary64_nonneg[OF p0] show nn: "0 \<le> binary64 (h * c)" .
  from le nn bound show "fround (fmul (Fin h) (Fin c)) = Fin (binary64 (h * c))"
    by (simp add: fround_def Let_def)
  from le nn bound binary64_idem[OF p0] show "representable (binary64 (h * c))"
    by (simp add: representable_def)
qed

lemma height_loop_extends:
  assumes "height_loop a m c acc = Some y"
  shows "\<exists>zs. y = acc @ zs"
proof (rule height_loop.raw_induct[where P = "\<lambda>a m c acc y. \<exists>zs. y = acc @ zs", OF _ assms])
  fix loop :: "pyfloat \<Rightarrow> pyfloat \<Rightarrow> pyfloat \<Rightarrow> pyfloat list \<Rightarrow> pyfloat list option"
  fix a m c acc y
  assume IH: "\<And>a m c acc y. loop a m c acc = Some y \<Longrightarrow> \<exists>zs. y = acc @ zs"
  assume step: "(if fless m a then loop (fround (fmul a c)) m c (acc @ [fround (fmul a c)])
                 else Some acc) = Some y"
  show "\<exists>zs. y = acc @ zs"
  proof (cases "fless m a")
    case True
    with step have "loop (fround (fmul a c)) m c (acc @ [fround (fmul a c)]) = Some y" by simp
    from IH[OF this] obtain zs where "y = (acc @ [fround (fmul a c)]) @ zs" by blast
    then show ?thesis by simp
  next
    case False
    with step show ?thesis by simp
  qed
qed

lemma height_loop_stuck_aux:
  assumes "height_loop a m c acc = Some y"
  shows "\<not> (fless m a \<and> fround (fmul a c) = a)"
proof (rule height_loop.raw_induct
    [where P = "\<lambda>a m c acc y. \<not> (fless m a \<and> fround (fmul a c) = a)", OF _ assms])
  fix loop :: "pyfloat \<Rightarrow> pyfloat \<Rightarrow> pyfloat \<Rightarrow> pyfloat list \<Rightarrow> pyfloat list option"
  fix a m c acc y
  assume IH: "\<And>a m c acc y. loop a m c acc = Some y \<Longrightarrow>
      \<not> (fless m a \<and> fround (fmul a c) = a)"
  assume step: "(if fless m a then loop (fround (fmul a c)) m c (acc @ [fround (fmul a c)])
                 else Some acc) = Some y"
  show "\<not> (fless m a \<and> fround (fmul a c) = a)"
  proof
    assume s: "fless m a \<and> fround (fmul a c) = a"
    with step have "loop a m c (acc @ [a]) = Some y" by simp
    from IH[OF this] s show False by blast
  qed
qed

lemma height_loop_stuck:
  "fless m a \<Longrightarrow> fround (fmul a c) = a \<Longrightarrow> height_loop a m c acc = None"
  using height_loop_stuck_aux[of a m c acc] by (cases "height_loop a m c acc") auto

lemma height_loop_sticking_point_aux:
  assumes "height_loop a m k acc = Some y"
    and "0 < e" "e \<le> binary64 (e * c)" "0 \<le> c" "c \<le> 1"
  shows "\<not> (\<exists>h. a = Fin h \<and> m = Fin 0 \<and> k = Fin c \<and> e \<le> h \<and> representable h)"
proof (rule height_loop.raw_induct
    [where P = "\<lambda>a m k acc y.
       \<not> (\<exists>h. a = Fin h \<and> m = Fin 0 \<and> k = Fin c \<and> e \<le> h \<and> representable h)",
      OF _ assms(1)])
  fix loop :: "pyfloat \<Rightarrow> pyfloat \<Rightarrow> pyfloat \<Rightarrow> pyfloat list \<Rightarrow> pyfloat list option"
  fix a m k acc y
  assume IH: "\<And>a m k acc y. loop a m k acc = Some y \<Longrightarrow>
      \<not> (\<exists>h. a = Fin h \<and> m = Fin 0 \<and> k = Fin c \<and> e \<le> h \<and> representable h)"
  assume step: "(if fless m a then loop (fround (fmul a k)) m k (acc @ [fround (fmul a k)])
                 else Some acc) = Some y"
  show "\<not> (\<exists>h. a = Fin h \<and> m = Fin 0 \<and> k = Fin c \<and> e \<le> h \<and> representable h)"
  proof
    assume "\<exists>h. a = Fin h \<and> m = Fin 0 \<and> k = Fin c \<and> e \<le> h \<and> representable h"
    then obtain h where h: "a = Fin h" "m = Fin 0" "k = Fin c" "e \<le> h" "representable h"
      by blast
    from h(4) assms(2) have h0: "0 \<le> h" "0 < h" by simp_all
    note st = representable_step[OF h(5) h0(1) assms(4,5)]
    from step h h0(2) st(1)
    have run: "loop (Fin (binary64 (h * c))) (Fin 0) (Fin c) (acc @ [Fin (binary64 (h * c))]) = Some y"
      by simp
    have "e * c \<le> h * c" using h(4) assms(4) by (simp add: mult_right_mono)
    moreover have "0 \<le> e * c" using assms(2,4) by simp
    ultimately have "binary64 (e * c) \<le> binary64 (h * c)" by (rule binary64_mono[rotated])
    with assms(3) have "e \<le> binary64 (h * c)" by simp
    with IH[OF run] st(4) show False by blast
  qed
qed

lemma height_loop_sticking_point:
  assumes "0 < e" "e \<le> binary64 (e * c)" "0 \<le> c" "c \<le> 1" "e \<le> h" "representable h"
  shows "height_loop (Fin h) (Fin 0) (Fin c) acc = None"
  using height_loop_sticking_point_aux[OF _ assms(1-4), of "Fin h" "Fin 0" "Fin c" acc] assms(5,6)
  by (cases "height_loop (Fin h) (Fin 0) (Fin c) acc") auto

lemma float_limit_gt_one: "1 < float_limit"
  unfolding float_limit_def by (rule one_less_power) simp_all

lemma representable_one: "representable 1"
  using float_limit_gt_one by (simp add: representable_def binary64_one)

lemma height_loop_three_quarters:
  "height_loop (Fin 1) (Fin 0) (Fin (3 / 4)) acc = None"
proof (rule height_loop_sticking_point[where e = "1 / 2 ^ 1074"])
  show "(1::real) / 2 ^ 1074 \<le> binary64 (1 / 2 ^ 1074 * (3 / 4))"
    using binary64_three_quarters_smallest by (simp add: mult.commute)
  show "(1::real) / 2 ^ 1074 \<le> 1" by simp
qed (simp_all add: representable_one)

text \<open>
  An example in the normal range: \<open>0.1\<close> is the float \<open>3602879701896397 / 2 ^ 55\<close>, a
  little above a tenth, and the product \<open>10 * 0.1\<close> is rounded to \<open>1.0\<close>; with a minimum
  height of \<open>1\<close> one height is returned.
\<close>

lemma binary64_in_binade:
  assumes "2 powi e \<le> \<bar>x\<bar>" "\<bar>x\<bar> < 2 powi (e + 1)" "- 1022 \<le> e"
  shows "binary64 x = 2 powi (e - 52) * real_of_int (rne (x / 2 powi (e - 52)))"
  unfolding binary64_def expo_eqI[OF assms] ..

lemma binary64_ten_tenths: "binary64 (10 * (3602879701896397 / 2 ^ 55)) = 1"
proof -
  have "binary64 (10 * (3602879701896397 / 2 ^ 55)) =
      2 powi (0 - 52) * real_of_int (rne (10 * (3602879701896397 / 2 ^ 55) / 2 powi (0 - 52)))"
    by (rule binary64_in_binade) simp_all
  also have "\<dots> = 1" using pow2_neg[of 52] by (simp add: rne_def)
  finally show ?thesis .
qed

lemma calculate_height_values_ten_tenth:
  "calculate_height_values (Fin 10) (Fin 1) (Fin (3602879701896397 / 2 ^ 55)) = Some [Fin 1]"
proof -
  have "fround (fmul (Fin 10) (Fin (3602879701896397 / 2 ^ 55))) = Fin 1"
    unfolding fmul.simps fround_def
    using float_limit_gt_one by (simp only: pyfloat.case Let_def binary64_ten_tenths) simp
  then show ?thesis
    unfolding calculate_height_values_def
    by (subst height_loop.simps, simp, subst height_loop.simps, simp)
qed

lemma slice_to_butlast: "slice_to xs (int (length xs) - 1) = butlast xs"
  by (cases xs rule: rev_cases) (simp_all add: slice_to_def)

lemma fadd_commute: "fadd a b = fadd b a"
  by (cases a; cases b) simp_all


lemma height_loop_result:
  assumes "height_loop (Fin h) (Fin m) (Fin c) acc = Some (acc @ zs)"
    and "representable h" "0 \<le> h" "0 < c" "c < 1"
  shows "\<exists>rs. zs = map Fin rs \<and> strictly_decreasing (Fin h # zs) \<and> (\<forall>r\<in>set rs. 0 \<le> r) \<and>
           (rs = [] \<longleftrightarrow> \<not> m < h) \<and>
           (rs \<noteq> [] \<longrightarrow> (\<forall>r\<in>set (butlast rs). m < r) \<and> last rs \<le> m)"
  using assms(1-3)
proof (induction zs arbitrary: h acc)
  case Nil
  have "\<not> m < h"
  proof
    assume "m < h"
    with Nil.prems(1)
    have "height_loop (fround (fmul (Fin h) (Fin c))) (Fin m) (Fin c)
            (acc @ [fround (fmul (Fin h) (Fin c))]) = Some acc"
      by (subst (asm) height_loop.simps) simp
    from height_loop_extends[OF this] show False by simp
  qed
  then show ?case by simp
next
  case (Cons z zs)
  have gt: "m < h"
  proof (rule ccontr)
    assume "\<not> m < h"
    with Cons.prems(1) show False by (subst (asm) height_loop.simps) simp
  qed
  have c01: "0 \<le> c" "c \<le> 1" using assms(4,5) by simp_all
  note st = representable_step[OF Cons.prems(2,3) c01]
  let ?h' = "binary64 (h * c)"
  from Cons.prems(1) gt st(1)
  have run: "height_loop (Fin ?h') (Fin m) (Fin c) (acc @ [Fin ?h']) = Some (acc @ z # zs)"
    by (subst (asm) height_loop.simps) simp
  from height_loop_extends[OF run] have z: "z = Fin ?h'" by auto
  with run have run': "height_loop (Fin ?h') (Fin m) (Fin c) (acc @ [Fin ?h'])
      = Some ((acc @ [Fin ?h']) @ zs)" by simp
  from Cons.IH[OF run' st(4) st(3)] obtain rs where
    rs: "zs = map Fin rs" "strictly_decreasing (Fin ?h' # zs)" "\<forall>r\<in>set rs. 0 \<le> r"
      "rs = [] \<longleftrightarrow> \<not> m < ?h'" "rs \<noteq> [] \<longrightarrow> (\<forall>r\<in>set (butlast rs). m < r) \<and> last rs \<le> m"
    by blast
  have "?h' \<noteq> h"
  proof
    assume "?h' = h"
    with st(1) gt have "height_loop (Fin h) (Fin m) (Fin c) acc = None"
      by (intro height_loop_stuck) simp_all
    with Cons.prems(1) show False by simp
  qed
  with st(2) have lt: "?h' < h" by simp
  have "z # zs = map Fin (?h' # rs)" using z rs(1) by simp
  moreover have "strictly_decreasing (Fin h # z # zs)" using lt z rs(2) by simp
  moreover have "\<forall>r\<in>set (?h' # rs). 0 \<le> r" using st(3) rs(3) by simp
  moreover have "(?h' # rs = [] \<longleftrightarrow> \<not> m < h)" using gt by simp
  moreover have "(\<forall>r\<in>set (butlast (?h' # rs)). m < r) \<and> last (?h' # rs) \<le> m"
    using rs(4,5) by (cases "rs = []") auto
  ultimately show ?case by (intro exI[of _ "binary64 (h * c) # rs"]) blast
qed

lemma calculate_height_values_result:
  assumes "calculate_height_values (Fin h0) (Fin m) (Fin c) = Some hs"
    and "representable h0" "0 < h0" "m < h0" "0 < c" "c < 1"
  shows "\<exists>rs. hs = map Fin rs \<and> strictly_decreasing (Fin h0 # hs) \<and> (\<forall>r\<in>set rs. 0 \<le> r) \<and>
           rs \<noteq> [] \<and> (\<forall>r\<in>set (butlast rs). m < r) \<and> last rs \<le> m"
proof -
  from assms(1) have "height_loop (Fin h0) (Fin m) (Fin c) [] = Some ([] @ hs)"
    by (simp add: calculate_height_values_def)
  from height_loop_result[OF this assms(2) _ assms(5,6)] assms(3,4) show ?thesis by auto
qed

lemma height_loop_returns:
  fixes h m c d :: real
  assumes "0 < c" "c \<le> 1" "c * (1 + 1 / 2 ^ 53) \<le> d" "2 powi (- 1022) \<le> m"
  shows "representable h \<Longrightarrow> 0 \<le> h \<Longrightarrow> h * d ^ n \<le> m \<Longrightarrow>
         \<exists>y. height_loop (Fin h) (Fin m) (Fin c) acc = Some y"
proof (induction n arbitrary: h acc)
  case 0
  then have "\<not> m < h" by simp
  then show ?case by (subst height_loop.simps) simp
next
  case (Suc n)
  have d0: "0 \<le> d"
  proof -
    have "0 \<le> c * (1 + 1 / 2 ^ 53)" using assms(1) by simp
    with assms(3) show ?thesis by linarith
  qed
  show ?case
  proof (cases "m < h")
    case False
    then show ?thesis by (subst height_loop.simps) simp
  next
    case True
    have c0: "0 \<le> c" using assms(1) by simp
    note st = representable_step[OF Suc.prems(1,2) c0 assms(2)]
    let ?h' = "binary64 (h * c)"
    have unfold: "height_loop (Fin h) (Fin m) (Fin c) acc =
        height_loop (Fin ?h') (Fin m) (Fin c) (acc @ [Fin ?h'])"
      using True st(1) by (subst height_loop.simps) simp
    show ?thesis
    proof (cases "h * c < 2 powi (- 1022)")
      case True
      have "0 \<le> h * c" using Suc.prems(2) c0 by simp
      from binary64_subnormal_bounds(2)[OF this True] assms(4)
      have "?h' \<le> m" by linarith
      then have "height_loop (Fin ?h') (Fin m) (Fin c) (acc @ [Fin ?h']) = Some (acc @ [Fin ?h'])"
        by (subst height_loop.simps) simp
      with unfold show ?thesis by simp
    next
      case False
      then have "2 powi (- 1022) \<le> h * c" by simp
      from binary64_relative_error[OF this] have "?h' \<le> h * c * (1 + 1 / 2 ^ 53)" .
      also have "\<dots> = h * (c * (1 + 1 / 2 ^ 53))" by (simp only: mult.assoc)
      also have "\<dots> \<le> h * d" using assms(3) Suc.prems(2) by (rule mult_left_mono)
      finally have step: "?h' \<le> h * d" .
      have "?h' * d ^ n \<le> (h * d) * d ^ n"
        using step by (rule mult_right_mono) (simp add: d0)
      also have "\<dots> = h * d ^ Suc n" by (simp only: power_Suc mult.assoc)
      also have "\<dots> \<le> m" by (rule Suc.prems(3))
      finally have "?h' * d ^ n \<le> m" .
      from Suc.IH[OF st(4) st(3) this] unfold show ?thesis by simp
    qed
  qed
qed

lemma calculate_height_values_returns:
  fixes h0 m c :: real
  assumes "representable h0" "0 < h0" "0 < c" "c \<le> 1 - 1 / 2 ^ 53" "1 / 2 ^ 1022 \<le> m"
  shows "\<exists>hs. calculate_height_values (Fin h0) (Fin m) (Fin c) = Some hs"
proof -
  define a :: real where "a = 1 / 2 ^ 53"
  define d :: real where "d = (1 - a) * (1 + a)"
  have a: "0 < a" "a < 1" by (simp_all add: a_def)
  have "d = 1 - a * a" by (simp add: d_def algebra_simps)
  moreover have "0 < a * a" using a(1) by simp
  ultimately have d1: "d < 1" by linarith
  have c1: "c \<le> 1 - a" using assms(4) by (simp add: a_def)
  then have cle: "c \<le> 1" using a(1) by linarith
  have cd: "c * (1 + 1 / 2 ^ 53) \<le> d"
    unfolding d_def a_def[symmetric] using c1 a(1) by (intro mult_right_mono) simp_all
  have mm: "2 powi (- 1022) \<le> m" using assms(5) pow2_neg[of 1022] by simp
  have "0 < m" using mm by (smt (verit) zero_less_power_int)
  with assms(2) have "0 < m / h0" by simp
  from real_arch_pow_inv[OF this d1] obtain n where "d ^ n < m / h0" by blast
  with assms(2) have "h0 * d ^ n \<le> m" by (simp add: field_simps)
  from height_loop_returns[OF assms(3) cle cd mm assms(1) _ this, of "[]"] assms(2)
  show ?thesis by (simp add: calculate_height_values_def)
qed

lemma fround_exact: "representable x \<Longrightarrow> fround (Fin x) = Fin x"
  by (auto simp add: fround_def representable_def Let_def)

lemma representableI: "binary64 x = x \<Longrightarrow> 0 \<le> x \<Longrightarrow> x \<le> 1 \<Longrightarrow> representable x"
  using float_limit_gt_one by (simp add: representable_def)

lemma representable_half: "representable (1 / 2)"
  by (rule representableI[OF binary64_half]) simp_all

lemma representable_quarter: "representable (1 / 4)"
  by (rule representableI[OF binary64_quarter]) simp_all




text \<open>
  Claim C3 says that the loop of \<open>calculate_height_values\<close> terminates for every triple
  that the validation loops accept. The minimum-height loop accepts \<open>0\<close>, and then the
  loop need not return: at initial height \<open>1\<close>, minimum height \<open>0\<close> and coefficient
  \<open>3 / 4\<close> the heights never fall below the smallest positive float, whose product with
  \<open>3 / 4\<close> is rounded back to itself. The call has no result, and neither has \<open>main\<close>
  on these three entries.
\<close>

theorem height_loop_never_returns_at_zero_floor:
  "calculate_height_values (Fin 1) (Fin 0) (Fin (3 / 4)) = None \<and>
   main [Numeric (Fin 1), Numeric (Fin 0), Numeric (Fin (3 / 4))] = None"
proof -
  have "height_loop (Fin 1) (Fin 0) (Fin (3 / 4)) [] = None"
    by (rule height_loop_three_quarters)
  then show ?thesis by (simp add: calculate_height_values_def main_def)
qed

text \<open>
  Claim C4: for every valid triple (a float initial height above \<open>0\<close>, minimum height from
  \<open>0\<close> up to but below the initial height, coefficient strictly between \<open>0\<close> and \<open>1\<close>)
  the height list that \<open>calculate_height_values\<close> returns is strictly decreasing and its
  first element is strictly smaller than the initial height. The call does return a list
  when the minimum height is at least the smallest normal float \<open>1 / 2 ^ 1022\<close> and the
  coefficient is at most \<open>1 - 1 / 2 ^ 53\<close>, as every float below \<open>1\<close> is.
\<close>

theorem height_list_strictly_decreasing:
  assumes "representable h0" "0 < h0" "0 \<le> m" "m < h0" "0 < c" "c < 1"
  shows "(\<forall>hs. calculate_height_values (Fin h0) (Fin m) (Fin c) = Some hs \<longrightarrow>
            strictly_decreasing (Fin h0 # hs)) \<and>
         (1 / 2 ^ 1022 \<le> m \<and> c \<le> 1 - 1 / 2 ^ 53 \<longrightarrow>
            (\<exists>hs. calculate_height_values (Fin h0) (Fin m) (Fin c) = Some hs))"
proof (intro conjI allI impI)
  fix hs assume "calculate_height_values (Fin h0) (Fin m) (Fin c) = Some hs"
  from calculate_height_values_result[OF this assms(1,2,4,5,6)]
  show "strictly_decreasing (Fin h0 # hs)" by blast
next
  assume "1 / 2 ^ 1022 \<le> m \<and> c \<le> 1 - 1 / 2 ^ 53"
  then show "\<exists>hs. calculate_height_values (Fin h0) (Fin m) (Fin c) = Some hs"
    using calculate_height_values_returns[OF assms(1,2,5)] by blast
qed

theorem height_list_strictly_decreasing_witness:
  "calculate_height_values (Fin 1) (Fin (3 / 8)) (Fin (1 / 2)) = Some [Fin (1 / 2), Fin (1 / 4)] \<and>
   strictly_decreasing [Fin 1, Fin (1 / 2), Fin (1 / 4)]"
proof -
  have v: "calculate_height_values (Fin 1) (Fin (3 / 8)) (Fin (1 / 2)) =
      Some [Fin (1 / 2), Fin (1 / 4)]"
    by (simp add: calculate_height_values_def height_loop.simps
        fround_exact[OF representable_half] fround_exact[OF representable_quarter])
  from height_list_strictly_decreasing[OF representable_one, of "3 / 8" "1 / 2"] v
  show ?thesis by simp
qed


text \<open>
  Claim C7, as amended: the total time that \<open>calculate_time_values\<close> returns is the
  zeroth-bounce fall time \<open>sqrt (2 * h0 / g)\<close> plus the sum of the flight times
  \<open>sqrt (8 * h / g)\<close> of the listed heights except the last one. It holds for every
  initial height and every height list.
\<close>

theorem calculate_time_values_total:
  "calculate_time_values initial_height height_list =
     fadd (fsqrt (fdiv (fmul (Fin 2) initial_height) GRAVITATIONAL_ACCELERATION_CONSTANT))
       (fsum (map (\<lambda>h. fsqrt (fdiv (fmul (Fin 8) h) GRAVITATIONAL_ACCELERATION_CONSTANT))
          (butlast height_list)))"
  by (simp add: calculate_time_values_def slice_to_butlast fadd_commute)

text \<open>
  Claim C7 as stated sums the flight times of all listed heights. At initial height
  \<open>1\<close>, minimum height \<open>1 / 2\<close> and coefficient \<open>1 / 4\<close> the height list is
  \<open>[1 / 4]\<close>; the total time returned is the fall time \<open>sqrt (2 / 9.807)\<close> alone, while
  the fall time plus the flight time of the listed height is twice that.
\<close>

theorem total_time_all_heights_counterexample:
  "calculate_height_values (Fin 1) (Fin (1 / 2)) (Fin (1 / 4)) = Some [Fin (1 / 4)] \<and>
   calculate_time_values (Fin 1) [Fin (1 / 4)] = Fin (sqrt (2000 / 9807)) \<and>
   fadd (fsqrt (fdiv (fmul (Fin 2) (Fin 1)) GRAVITATIONAL_ACCELERATION_CONSTANT))
     (fsum (map (\<lambda>h. fsqrt (fdiv (fmul (Fin 8) h) GRAVITATIONAL_ACCELERATION_CONSTANT))
        [Fin (1 / 4)])) = Fin (2 * sqrt (2000 / 9807)) \<and>
   sqrt (2000 / 9807) \<noteq> 2 * sqrt (2000 / 9807)"
  by (simp add: calculate_height_values_def height_loop.simps calculate_time_values_def
      slice_to_def GRAVITATIONAL_ACCELERATION_CONSTANT_def
      fround_exact[OF representable_quarter])



text \<open>
  What the three loops let through: a value that is not at or below \<open>0\<close>, a value that is
  neither below \<open>0\<close> nor at or above the initial height, and a value that is neither at
  or below \<open>0\<close> nor at or above \<open>1\<close>. For a finite value these are the ranges of the
  prompts; NaN fails every comparison and so passes every check.
\<close>

lemma initial_height_loop_accepted:
  "initial_height_loop entries = Inr (v, rest) \<Longrightarrow> \<not> fle v (Fin 0)"
  by (induction entries rule: initial_height_loop.induct) (auto split: if_splits)

lemma minimum_height_loop_accepted:
  "minimum_height_loop initial_height entries = Inr (v, rest) \<Longrightarrow>
   \<not> fless v (Fin 0) \<and> \<not> fle initial_height v"
  by (induction initial_height entries rule: minimum_height_loop.induct) (auto split: if_splits)

lemma energy_loss_coefficient_loop_accepted:
  "energy_loss_coefficient_loop entries = Inr (v, rest) \<Longrightarrow>
   \<not> fle v (Fin 0) \<and> \<not> fle (Fin 1) v"
  by (induction entries rule: energy_loss_coefficient_loop.induct) (auto split: if_splits)

lemma not_fle_finite: "\<not> fle (Fin x) (Fin y) \<longleftrightarrow> y < x"
  by auto

text \<open>
  Claim C8 says that the initial-height loop accepts exactly the positive numbers and the
  coefficient loop exactly the numbers strictly between \<open>0\<close> and \<open>1\<close>. Both loops
  re-prompt on a non-numeric entry and on a value outside the range, and both accept the
  entry \<open>nan\<close>; the minimum-height loop re-prompts on a minimum equal to the initial
  height.
\<close>

theorem validation_loops_accept_nan:
  "initial_height_loop [NotNumeric, Numeric (Fin 0), Numeric NaN] = Inr (NaN, []) \<and>
   energy_loss_coefficient_loop [Numeric (Fin 1), Numeric NaN] = Inr (NaN, []) \<and>
   minimum_height_loop (Fin 2) [Numeric (Fin 2), Numeric (Fin 1)] = Inr (Fin 1, [])"
  by simp

section \<open>Properties of the nuclear-decay script\<close>

lemma row_is_not_null_three:
  "3 \<le> length row \<Longrightarrow>
   row_is_not_null row = Inr (\<not> isnan (row ! 0) \<and> \<not> isnan (row ! 1) \<and> \<not> isnan (row ! 2))"
  by (auto simp add: row_is_not_null_def getitem_def data_is_not_null_def)

lemma null_filter_loop_filter:
  "\<forall>row\<in>set rows. 3 \<le> length row \<Longrightarrow>
   null_filter_loop rows acc =
     Inr (acc @ map (\<lambda>row. [fmul (row ! 0) (Fin 3600), fmul (row ! 1) (Fin (10 ^ 12)),
                            fmul (row ! 2) (Fin (10 ^ 12))])
            (filter (\<lambda>row. \<not> isnan (row ! 0) \<and> \<not> isnan (row ! 1) \<and> \<not> isnan (row ! 2)) rows))"
proof (induction rows arbitrary: acc)
  case Nil
  then show ?case by simp
next
  case (Cons row rows)
  then have len: "3 \<le> length row" and rest: "\<forall>row\<in>set rows. 3 \<le> length row" by simp_all
  show ?case
    by (simp only: null_filter_loop.simps row_is_not_null_three[OF len] Cons.IH[OF rest])
      (simp add: Let_def)
qed

text \<open>
  Claim C6: on an array of rows with the three fields time, activity and activity
  uncertainty, \<open>remove_null_values\<close> returns exactly the rows in which no field is NaN,
  in their order, each with its time multiplied by \<open>3600\<close> and its activity and
  uncertainty multiplied by \<open>10 ^ 12\<close>; a row with a NaN field contributes nothing.
\<close>

theorem remove_null_values_retains_complete_rows:
  assumes "\<forall>row\<in>set file_ab. length row = 3"
  shows "remove_null_values file_ab =
     Inr (map (\<lambda>row. [fmul (row ! 0) (Fin 3600), fmul (row ! 1) (Fin (10 ^ 12)),
                      fmul (row ! 2) (Fin (10 ^ 12))])
            (filter (\<lambda>row. \<not> isnan (row ! 0) \<and> \<not> isnan (row ! 1) \<and> \<not> isnan (row ! 2)) file_ab))"
proof -
  from assms have "\<forall>row\<in>set file_ab. 3 \<le> length row" by simp
  from null_filter_loop_filter[OF this, of "[]"] show ?thesis
    by (simp add: remove_null_values_def)
qed

theorem remove_null_values_retains_complete_rows_witness:
  "remove_null_values [[Fin 1, NaN, Fin 2], [Fin 1, Fin 2, Fin 3], [NaN, Fin 5, Fin 6]] =
     Inr [[Fin 3600, Fin 2000000000000, Fin 3000000000000]]"
  using remove_null_values_retains_complete_rows
    [of "[[Fin 1, NaN, Fin 2], [Fin 1, Fin 2, Fin 3], [NaN, Fin 5, Fin 6]]"]
  by simp

lemma take_indexes_filter:
  "n \<le> length xs \<Longrightarrow> take_indexes xs (filter P [0..<n]) = Inr (map (nth xs) (filter P [0..<n]))"
  by (auto simp: take_indexes_def list_all_iff)

lemma rows_of_columns:
  "map (\<lambda>(t, a, u). [t, a, u]) (zip (map f idx) (zip (map g idx) (map h idx)))
     = map (\<lambda>i. [f i, g i, h i]) idx"
  by (induction idx) simp_all

text \<open>
  Claim C1, as amended: on arrays of equal length \<open>remove_outliers\<close> retains exactly the
  rows whose measured activity deviates from the model prediction by strictly less than
  three measurement uncertainties, in their order, and discards every other row, the
  rows deviating by exactly three uncertainties among them.
\<close>

theorem remove_outliers_keeps_rows_strictly_within_three_sigma:
  assumes "length time = length trial_activity"
    and "length activity = length trial_activity"
    and "length activity_uncertainty = length trial_activity"
  shows "remove_outliers trial_activity time activity activity_uncertainty =
     Inr (map (\<lambda>i. [time ! i, activity ! i, activity_uncertainty ! i])
            (filter (\<lambda>i. fless (fabs (fsub (trial_activity ! i) (activity ! i)))
                            (fmul (Fin 3) (activity_uncertainty ! i)))
               [0..<length trial_activity]))"
proof -
  let ?n = "length trial_activity"
  let ?difference = "map2 fsub trial_activity activity"
  let ?condition = "map2 fless (map fabs ?difference) (map (fmul (Fin 3)) activity_uncertainty)"
  let ?keep = "\<lambda>i. fless (fabs (fsub (trial_activity ! i) (activity ! i)))
                       (fmul (Fin 3) (activity_uncertainty ! i))"
  have d: "elementwise fsub trial_activity activity = Inr ?difference"
    using assms by (simp add: elementwise_def)
  have c: "elementwise fless (map fabs ?difference) (map (fmul (Fin 3)) activity_uncertainty)
      = Inr ?condition"
    using assms by (simp add: elementwise_def)
  have len: "length ?condition = ?n" using assms by simp
  have idx: "filter (\<lambda>i. ?condition ! i) [0..<?n] = filter ?keep [0..<?n]"
    by (rule filter_cong) (use assms in auto)
  show ?thesis
    unfolding remove_outliers_def d c sum.case Let_def len idx
    using assms by (simp add: take_indexes_filter rows_of_columns)
qed

theorem remove_outliers_keeps_rows_strictly_within_three_sigma_witness:
  "remove_outliers [Fin 3, Fin 1, Fin 5] [Fin 0, Fin 7, Fin 8] [Fin 0, Fin 0, Fin 2]
     [Fin 1, Fin 1, Fin 2] = Inr [[Fin 7, Fin 0, Fin 1], [Fin 8, Fin 2, Fin 2]]"
  using remove_outliers_keeps_rows_strictly_within_three_sigma
    [of "[Fin 0, Fin 7, Fin 8]" "[Fin 3, Fin 1, Fin 5]" "[Fin 0, Fin 0, Fin 2]"
        "[Fin 1, Fin 1, Fin 2]"]
  by (simp add: fsub_def upt_rec)

text \<open>
  Claim C1 as stated retains a row that deviates by exactly three uncertainties. The row
  with prediction \<open>3\<close>, activity \<open>0\<close> and uncertainty \<open>1\<close> deviates by exactly three
  uncertainties, and \<open>remove_outliers\<close> discards it.
\<close>

theorem three_sigma_boundary_row_counterexample:
  "fabs (fsub (Fin 3) (Fin 0)) = fmul (Fin 3) (Fin 1) \<and>
   remove_outliers [Fin 3] [Fin 0] [Fin 0] [Fin 1] = Inr []"
  by (simp add: remove_outliers_def elementwise_def take_indexes_def fsub_def)

lemma elementwise_nth:
  assumes "elementwise f xs ys = Inr zs" "i < length zs" "i < length ys"
  shows "\<exists>x\<in>set xs. zs ! i = f x (ys ! i)"
proof -
  consider (eq) "length xs = length ys"
    | (left) "length xs \<noteq> length ys" "length xs = 1"
    | (right) "length xs \<noteq> length ys" "length xs \<noteq> 1" "length ys = 1"
    | (bad) "length xs \<noteq> length ys" "length xs \<noteq> 1" "length ys \<noteq> 1"
    by blast
  then show ?thesis
  proof cases
    case eq
    with assms have "zs = map2 f xs ys" by (simp add: elementwise_def)
    with assms(2,3) eq have "zs ! i = f (xs ! i) (ys ! i)" "xs ! i \<in> set xs" by simp_all
    then show ?thesis by blast
  next
    case left
    with assms have "zs = map (f (hd xs)) ys" by (simp add: elementwise_def)
    moreover from left(2) have "hd xs \<in> set xs" by (cases xs) simp_all
    ultimately show ?thesis using assms(3) by auto
  next
    case right
    with assms have zs: "zs = map (\<lambda>x. f x (hd ys)) xs" by (simp add: elementwise_def)
    from right(3) assms(3) have i: "i = 0" and hd: "hd ys = ys ! i" by (cases ys; simp)+
    from assms(2) zs have "xs \<noteq> []" by auto
    then have "xs ! 0 \<in> set xs" by simp
    moreover have "zs ! i = f (xs ! 0) (ys ! i)" using zs i hd assms(2) by simp
    ultimately show ?thesis by blast
  next
    case bad
    with assms(1) show ?thesis by (simp add: elementwise_def)
  qed
qed

lemma below_three_uncertainties_positive:
  assumes "fless (fabs d) (fmul (Fin 3) u)"
  shows "fless (Fin 0) u"
  using assms by (cases d; cases u) (auto simp: signed_inf_def)

lemma take_indexes_Inr:
  "take_indexes xs idx = Inr ys \<Longrightarrow> ys = map (nth xs) idx \<and> (\<forall>i\<in>set idx. i < length xs)"
  by (auto simp: take_indexes_def list_all_iff split: if_splits)

text \<open>
  Claim C9, as amended: every row that \<open>remove_outliers\<close> retains has the three fields and
  a strictly positive activity uncertainty; a row whose uncertainty is zero, negative or NaN
  is always discarded.
\<close>

theorem retained_rows_have_positive_uncertainty:
  assumes "remove_outliers trial_activity time activity activity_uncertainty = Inr rows"
    and "row \<in> set rows"
  shows "length row = 3 \<and> fless (Fin 0) (row ! 2)"
proof -
  from assms(1) obtain difference condition ft fa fu where
    d: "elementwise fsub trial_activity activity = Inr difference" and
    c: "elementwise fless (map fabs difference) (map (fmul (Fin 3)) activity_uncertainty)
          = Inr condition" and
    t: "take_indexes time (filter (\<lambda>i. condition ! i) [0..<length condition]) = Inr ft" and
    a: "take_indexes activity (filter (\<lambda>i. condition ! i) [0..<length condition]) = Inr fa" and
    u: "take_indexes activity_uncertainty (filter (\<lambda>i. condition ! i) [0..<length condition])
          = Inr fu" and
    rows: "rows = map (\<lambda>(t, a, u). [t, a, u]) (zip ft (zip fa fu))"
    by (auto simp: remove_outliers_def Let_def split: sum.splits)
  let ?idx = "filter (\<lambda>i. condition ! i) [0..<length condition]"
  from take_indexes_Inr[OF t] take_indexes_Inr[OF a] take_indexes_Inr[OF u]
  have ft: "ft = map (nth time) ?idx" and fa: "fa = map (nth activity) ?idx"
    and fu: "fu = map (nth activity_uncertainty) ?idx"
    and bound: "\<forall>i\<in>set ?idx. i < length activity_uncertainty"
    by simp_all
  have "rows = map (\<lambda>i. [time ! i, activity ! i, activity_uncertainty ! i]) ?idx"
    unfolding rows ft fa fu by (rule rows_of_columns)
  with assms(2) obtain i where i: "i \<in> set ?idx"
    and row: "row = [time ! i, activity ! i, activity_uncertainty ! i]"
    by auto
  from i have ci: "condition ! i" and il: "i < length condition" by simp_all
  from i bound have iu: "i < length (map (fmul (Fin 3)) activity_uncertainty)" by simp
  from elementwise_nth[OF c il iu] ci
  obtain x where "x \<in> set (map fabs difference)"
    and "fless x (fmul (Fin 3) (activity_uncertainty ! i))"
    using iu by auto
  then obtain dv where "fless (fabs dv) (fmul (Fin 3) (activity_uncertainty ! i))" by auto
  from below_three_uncertainties_positive[OF this] row show ?thesis by simp
qed

theorem retained_rows_have_positive_uncertainty_witness:
  "remove_outliers [Fin 3, Fin 1, Fin 5] [Fin 0, Fin 7, Fin 8] [Fin 0, Fin 0, Fin 5]
     [Fin 1, Fin 1, Fin 0] = Inr [[Fin 7, Fin 0, Fin 1]] \<and>
   length [Fin 7, Fin 0, Fin (1::real)] = 3 \<and> fless (Fin 0) ([Fin 7, Fin 0, Fin 1] ! 2)"
proof -
  have r: "remove_outliers [Fin 3, Fin 1, Fin 5] [Fin 0, Fin 7, Fin 8] [Fin 0, Fin 0, Fin 5]
     [Fin 1, Fin 1, Fin 0] = Inr [[Fin 7, Fin 0, Fin 1]]"
    by (simp add: remove_outliers_def elementwise_def take_indexes_def fsub_def upt_rec)
  have m: "[Fin 7, Fin 0, Fin 1] \<in> set [[Fin 7, Fin 0, Fin 1]]" by simp
  from retained_rows_have_positive_uncertainty[OF r m] r show ?thesis by blast
qed

text \<open>
  Claim C9 as stated goes on to say that \<open>chi_squared_value\<close> never divides by zero on
  outlier-filtered data. The row with prediction \<open>0\<close>, activity \<open>1 / 2 ^ 537\<close> and uncertainty
  \<open>1 / 2 ^ 538\<close> is retained. In binary64 the square of its uncertainty is \<open>0.0\<close>, the
  square of its residual is the smallest positive float, and the term of the chi-squared
  sum for this row is a division by zero with the result \<open>inf\<close>.
\<close>

theorem retained_uncertainty_square_underflows_counterexample:
  "remove_outliers [Fin 0] [Fin 0] [Fin (1 / 2 ^ 537)] [Fin (1 / 2 ^ 538)] =
     Inr [[Fin 0, Fin (1 / 2 ^ 537), Fin (1 / 2 ^ 538)]] \<and>
   fround (fsquare (Fin (1 / 2 ^ 538))) = Fin 0 \<and>
   fdiv (fround (fsquare (fsub (Fin (1 / 2 ^ 537)) (Fin 0))))
     (fround (fsquare (Fin (1 / 2 ^ 538)))) = PInf"
proof -
  have kept: "remove_outliers [Fin 0] [Fin 0] [Fin (1 / 2 ^ 537)] [Fin (1 / 2 ^ 538)] =
     Inr [[Fin 0, Fin (1 / 2 ^ 537), Fin (1 / 2 ^ 538)]]"
    by (simp add: remove_outliers_def elementwise_def take_indexes_def fsub_def)
  have "binary64 (1 / 2 ^ 538 * (1 / 2 ^ 538)) = 0"
    by (subst binary64_subnormal) (simp_all add: rne_def)
  then have divisor: "fround (fsquare (Fin (1 / 2 ^ 538))) = Fin 0"
    unfolding fsquare_def fmul.simps fround_def
    using float_limit_gt_one by (simp only: pyfloat.case Let_def) simp
  have "binary64 ((1 / 2 ^ 537 + - 0) * (1 / 2 ^ 537 + - 0)) = 1 / 2 ^ 1074"
    by (subst binary64_subnormal) (simp_all add: rne_def)
  then have residual: "fround (fsquare (fsub (Fin (1 / 2 ^ 537)) (Fin 0))) = Fin (1 / 2 ^ 1074)"
    unfolding fsquare_def fsub_def fneg.simps fadd.simps fmul.simps fround_def
    using float_limit_gt_one by (simp only: pyfloat.case Let_def) simp
  have "fdiv (Fin (1 / 2 ^ 1074)) (Fin 0) = PInf"
    by (simp add: signed_inf_def)
  with kept divisor residual show ?thesis by (simp only: simp_thms)
qed









lemma map2_nth:
  assumes "length xs = length ys"
  shows "map2 f xs ys = map (\<lambda>i. f (xs ! i) (ys ! i)) [0..<length xs]"
  by (rule nth_equalityI) (simp_all add: assms)

lemma elementwise_same_length:
  "length xs = length ys \<Longrightarrow>
   elementwise f xs ys = Inr (map (\<lambda>i. f (xs ! i) (ys ! i)) [0..<length xs])"
  unfolding elementwise_def by (simp only: map2_nth if_True simp_thms)

text \<open>
  Claim C5: on a dataset whose rows have the three fields, with one activity, uncertainty
  and prediction per time point, the reduced chi-squared is the chi-squared sum (the
  squared residuals over the squared uncertainties) divided by the degrees of freedom, the
  number of time points minus two.
\<close>

theorem reduced_chi_squared_degrees_of_freedom:
  assumes "dataset \<noteq> []" and "\<forall>row\<in>set dataset. length row = 3"
    and "length dependent_variable = length independent_variable"
    and "length error = length independent_variable"
    and "length predicted_dependent_variable = length independent_variable"
  shows "chi_squared_value independent_variable dependent_variable error
           predicted_dependent_variable dataset =
         Inr (fdiv
           (fsum (map (\<lambda>i. fdiv (fsquare (fsub (dependent_variable ! i)
                                      (predicted_dependent_variable ! i)))
                              (fsquare (error ! i)))
                   [0..<length independent_variable]))
           (Fin (real_of_int (int (length independent_variable) - 2))))"
proof -
  let ?n = "length independent_variable"
  have r: "elementwise fsub dependent_variable predicted_dependent_variable =
      Inr (map (\<lambda>i. fsub (dependent_variable ! i) (predicted_dependent_variable ! i)) [0..<?n])"
    using assms(3,5) elementwise_same_length[of dependent_variable predicted_dependent_variable fsub]
    by simp
  have t: "elementwise fdiv
      (map fsquare (map (\<lambda>i. fsub (dependent_variable ! i) (predicted_dependent_variable ! i))
         [0..<?n]))
      (map fsquare error) =
      Inr (map (\<lambda>i. fdiv (fsquare (fsub (dependent_variable ! i)
                                      (predicted_dependent_variable ! i)))
                        (fsquare (error ! i))) [0..<?n])"
  proof -
    let ?xs = "map fsquare (map (\<lambda>i. fsub (dependent_variable ! i)
        (predicted_dependent_variable ! i)) [0..<?n])"
    let ?ys = "map fsquare error"
    have len: "length ?xs = length ?ys" "length ?xs = ?n" using assms(4) by simp_all
    have "map (\<lambda>i. fdiv (?xs ! i) (?ys ! i)) [0..<?n] =
        map (\<lambda>i. fdiv (fsquare (fsub (dependent_variable ! i)
                                      (predicted_dependent_variable ! i)))
                        (fsquare (error ! i))) [0..<?n]"
      by (rule map_cong[OF refl]) (simp add: assms(4))
    with elementwise_same_length[OF len(1), of fdiv] len(2) show ?thesis by (simp only:)
  qed
  from assms(1,2) have g: "getitem dataset 0 = Inr (hd dataset)" and l: "length (hd dataset) = 3"
    by (cases dataset; simp add: getitem_def)+
  show ?thesis
    unfolding chi_squared_value_def r t g sum.case Let_def l
    by (simp only: of_nat_numeral diff_diff_eq2 add_diff_cancel_right') simp
qed

theorem reduced_chi_squared_degrees_of_freedom_witness:
  "chi_squared_value [Fin 0, Fin 1, Fin 2, Fin 3] [Fin 1, Fin 1, Fin 1, Fin 2]
     [Fin 1, Fin 1, Fin 1, Fin 1] [Fin 0, Fin 0, Fin 0, Fin 1]
     [[Fin 0, Fin 1, Fin 1], [Fin 1, Fin 1, Fin 1], [Fin 2, Fin 1, Fin 1], [Fin 3, Fin 2, Fin 1]]
     = Inr (Fin 2) \<and>
   fdiv (fsum (map (\<lambda>i. fdiv (fsquare (fsub ([Fin 1, Fin 1, Fin 1, Fin 2] ! i)
                                    ([Fin 0, Fin 0, Fin 0, Fin 1] ! i)))
                            (fsquare ([Fin 1, Fin 1, Fin 1, Fin 1] ! i)))
                 [0..<length [Fin 0, Fin 1, Fin 2, Fin 3]]))
     (Fin (real_of_int (int (length [Fin 0, Fin 1, Fin 2, Fin 3]) - 2))) = Fin 2"
proof -
  have v: "chi_squared_value [Fin 0, Fin 1, Fin 2, Fin 3] [Fin 1, Fin 1, Fin 1, Fin 2]
     [Fin 1, Fin 1, Fin 1, Fin 1] [Fin 0, Fin 0, Fin 0, Fin 1]
     [[Fin 0, Fin 1, Fin 1], [Fin 1, Fin 1, Fin 1], [Fin 2, Fin 1, Fin 1], [Fin 3, Fin 2, Fin 1]]
     = Inr (Fin 2)"
    by (simp add: chi_squared_value_def elementwise_def getitem_def fsub_def fsquare_def)
  have "chi_squared_value [Fin 0, Fin 1, Fin 2, Fin 3] [Fin 1, Fin 1, Fin 1, Fin 2]
     [Fin 1, Fin 1, Fin 1, Fin 1] [Fin 0, Fin 0, Fin 0, Fin 1]
     [[Fin 0, Fin 1, Fin 1], [Fin 1, Fin 1, Fin 1], [Fin 2, Fin 1, Fin 1], [Fin 3, Fin 2, Fin 1]]
     = Inr (fdiv (fsum (map (\<lambda>i. fdiv (fsquare (fsub ([Fin 1, Fin 1, Fin 1, Fin 2] ! i)
                                    ([Fin 0, Fin 0, Fin 0, Fin 1] ! i)))
                            (fsquare ([Fin 1, Fin 1, Fin 1, Fin 1] ! i)))
                 [0..<length [Fin 0, Fin 1, Fin 2, Fin 3]]))
     (Fin (real_of_int (int (length [Fin 0, Fin 1, Fin 2, Fin 3]) - 2))))"
    by (rule reduced_chi_squared_degrees_of_freedom) simp_all
  with v show ?thesis by simp
qed

end
